theory Spec2Isabelle
  imports Main "HOL-Library.Sublist"
begin

section \<open>The user feed: data, state and the element tree\<close>

text \<open>
  The TypeScript type \<^verbatim>\<open>User\<close> has the nested fields \<^verbatim>\<open>login.uuid\<close>,
  \<^verbatim>\<open>picture.large\<close>, \<^verbatim>\<open>name.first\<close>, \<^verbatim>\<open>name.last\<close> and \<^verbatim>\<open>email\<close>,
  all strings. The record flattens the paths into field names.
\<close>

record user =
  login_uuid :: string
  picture_large :: string
  name_first :: string
  name_last :: string
  email :: string

text \<open>
  The body of a parsed response. The source reads \<^verbatim>\<open>data.results as User[]\<close>: the
  type assertion is taken at its word, so \<open>results\<close> is a list of user records.
\<close>

datatype data = Data (results: "user list")

text \<open>
  The promise returned by one call of \<^verbatim>\<open>fetchUsers\<close>: suspended at the first
  \<^verbatim>\<open>await\<close> (the network call), suspended at the second (\<^verbatim>\<open>response.json()\<close>),
  fulfilled, or rejected. Neither call site attaches a handler to the promise, so a
  rejected promise is an unhandled rejection.
\<close>

datatype promise = AwaitFetch | AwaitJson | Fulfilled | Rejected

text \<open>
  What a call of \<^verbatim>\<open>fetchUsers\<close> does to the outside and to the component's state,
  tagged with the number of the call: the calls are numbered in the order they are
  made.
\<close>

datatype action =
    SetLoading nat bool
  | Fetch nat string
  | ResponseJson nat
  | SetUsers nat "user list"

record entry =
  isIntersecting :: bool
  target :: nat

datatype error = TypeError

text \<open>
  The element tree the component returns: the children of the \<^verbatim>\<open>userFeed\<close> div. A
  card element carries whether \<^verbatim>\<open>lastUserElementRef\<close> is passed as its ref, its key
  and its user; the loading indicator is a paragraph.
\<close>

datatype element =
    UserCard_el bool string user
  | P_el string

text \<open>
  The DOM of one card: a div with a class name and children, an image with its source
  and alternative text, a heading and a paragraph.
\<close>

datatype node =
    Div_node string "node list"
  | Img_node string string
  | H3_node string
  | P_node string

text \<open>
  The state of a mounted \<^verbatim>\<open>UserFeed\<close>. \<open>users\<close> and \<open>loading\<close> are the two
  \<^verbatim>\<open>useState\<close> cells; \<open>users_version\<close> stands for the identity of the array held in
  \<open>users\<close> (every \<^verbatim>\<open>setUsers\<close> stores a fresh array), and \<open>effect_deps\<close> is the
  identity the observer effect last ran with, which is what the dependency list
  \<^verbatim>\<open>[users, handleObserver]\<close> compares (\<^verbatim>\<open>handleObserver\<close> never changes: its
  \<^verbatim>\<open>useCallback\<close> has no dependencies). \<open>observer\<close> is \<^verbatim>\<open>observer.current\<close>, the index
  in \<open>observers\<close> of the current \<^verbatim>\<open>IntersectionObserver\<close>; \<open>observers\<close> lists, for
  every observer created so far, the nodes it observes. A node is the position of an
  element among the children of the feed. \<open>calls\<close> holds the promise of every call of
  \<^verbatim>\<open>fetchUsers\<close> made so far, and \<open>trace\<close> the actions of all calls in the order
  they happened.
\<close>

record feed =
  users :: "user list"
  loading :: bool
  users_version :: nat
  effect_deps :: nat
  observer :: "nat option"
  lastUserElementRef :: "nat option"
  observers :: "nat list list"
  calls :: "promise list"
  trace :: "action list"

definition initial :: feed where
  "initial = \<lparr>users = [], loading = False, users_version = 0, effect_deps = 0,
     observer = None, lastUserElementRef = None, observers = [], calls = [], trace = []\<rparr>"

section \<open>The data loader\<close>

definition url :: string where
  "url = ''https://randomuser.me/api/?results=10''"

text \<open>
  The two state setters, tagged with the call that uses them. \<^verbatim>\<open>setUsers\<close> is
  called with an updater function, which React applies to the state at the time the
  update is processed, not to the value the caller saw; the trace records the array
  the updater returned.
\<close>

definition setLoading :: "nat \<Rightarrow> bool \<Rightarrow> feed \<Rightarrow> feed" where
  "setLoading i b s = s\<lparr>loading := b, trace := trace s @ [SetLoading i b]\<rparr>"

definition setUsers :: "nat \<Rightarrow> (user list \<Rightarrow> user list) \<Rightarrow> feed \<Rightarrow> feed" where
  "setUsers i f s = s\<lparr>users := f (users s), users_version := Suc (users_version s),
     trace := trace s @ [SetUsers i (f (users s))]\<rparr>"

definition fetch :: "nat \<Rightarrow> string \<Rightarrow> feed \<Rightarrow> feed" where
  "fetch i u s = s\<lparr>calls := calls s @ [AwaitFetch], trace := trace s @ [Fetch i u]\<rparr>"

text \<open>
  \<^verbatim>\<open>fetchUsers\<close> up to its first \<^verbatim>\<open>await\<close>: the part that runs synchronously in
  the caller. The call gets the next free number.
\<close>

definition fetchUsers :: "feed \<Rightarrow> feed" where
  "fetchUsers s = (let i = length (calls s) in fetch i url (setLoading i True s))"

text \<open>
  The continuations of call \<open>i\<close>. When the network call resolves, the function goes on
  to \<^verbatim>\<open>response.json()\<close> and suspends again; when that resolves with \<open>d\<close>, it
  appends \<open>results d\<close> and clears the flag. A rejection at either \<^verbatim>\<open>await\<close> rejects
  the promise of the call and runs nothing else of the function. A settlement for a call
  that is not suspended at that \<^verbatim>\<open>await\<close> cannot happen, and changes nothing.
\<close>

definition fetch_resolved :: "nat \<Rightarrow> feed \<Rightarrow> feed" where
  "fetch_resolved i s =
     (if i < length (calls s) \<and> calls s ! i = AwaitFetch
      then s\<lparr>calls := (calls s)[i := AwaitJson], trace := trace s @ [ResponseJson i]\<rparr>
      else s)"

definition fetch_rejected :: "nat \<Rightarrow> feed \<Rightarrow> feed" where
  "fetch_rejected i s =
     (if i < length (calls s) \<and> calls s ! i = AwaitFetch
      then s\<lparr>calls := (calls s)[i := Rejected]\<rparr>
      else s)"

definition json_resolved :: "nat \<Rightarrow> data \<Rightarrow> feed \<Rightarrow> feed" where
  "json_resolved i d s =
     (if i < length (calls s) \<and> calls s ! i = AwaitJson
      then (setLoading i False (setUsers i (\<lambda>prevUsers. prevUsers @ results d) s))
             \<lparr>calls := (calls s)[i := Fulfilled]\<rparr>
      else s)"

definition json_rejected :: "nat \<Rightarrow> feed \<Rightarrow> feed" where
  "json_rejected i s =
     (if i < length (calls s) \<and> calls s ! i = AwaitJson
      then s\<lparr>calls := (calls s)[i := Rejected]\<rparr>
      else s)"

section \<open>The visibility trigger\<close>

text \<open>
  \<^verbatim>\<open>const [entry] = entries\<close> takes the first entry; on an empty array \<open>entry\<close> is
  undefined and reading \<^verbatim>\<open>entry.isIntersecting\<close> throws a TypeError.
\<close>

definition handleObserver :: "entry list \<Rightarrow> feed \<Rightarrow> error + feed" where
  "handleObserver entries s =
     (case entries of
        [] \<Rightarrow> Inl TypeError
      | entry # _ \<Rightarrow> Inr (if isIntersecting entry then fetchUsers s else s))"

definition disconnect :: "nat \<Rightarrow> feed \<Rightarrow> feed" where
  "disconnect ob s = s\<lparr>observers := (observers s)[ob := []]\<rparr>"

text \<open>Observing a node the observer already observes does nothing.\<close>

definition observe :: "nat \<Rightarrow> nat \<Rightarrow> feed \<Rightarrow> feed" where
  "observe ob n s =
     (if ob < length (observers s) \<and> n \<notin> set (observers s ! ob)
      then s\<lparr>observers := (observers s)[ob := observers s ! ob @ [n]]\<rparr>
      else s)"

text \<open>The body of the first effect, and the cleanup function it returns.\<close>

definition observer_effect :: "feed \<Rightarrow> feed" where
  "observer_effect s =
     (let s1 = (case observer s of Some ob \<Rightarrow> disconnect ob s | None \<Rightarrow> s);
          ob' = length (observers s1);
          s2 = s1\<lparr>observers := observers s1 @ [[]], observer := Some ob'\<rparr>
      in case lastUserElementRef s2 of Some n \<Rightarrow> observe ob' n s2 | None \<Rightarrow> s2)"

definition observer_cleanup :: "feed \<Rightarrow> feed" where
  "observer_cleanup s = (case observer s of Some ob \<Rightarrow> disconnect ob s | None \<Rightarrow> s)"

section \<open>The view\<close>

definition full_name :: "user \<Rightarrow> string" where
  "full_name u = name_first u @ '' '' @ name_last u"

definition UserCard :: "user \<Rightarrow> node" where
  "UserCard u =
     Div_node ''userCard''
       [Img_node (picture_large u) (full_name u), H3_node (full_name u),
        P_node (''Email: '' @ email u)]"

text \<open>
  The children of the feed: \<^verbatim>\<open>users.map((user, index) => ...)\<close> followed by
  \<^verbatim>\<open>loading && <p>Loading...</p>\<close>. The comparison \<^verbatim>\<open>index === users.length - 1\<close>
  is over the integers: on an empty array the right side is -1.
\<close>

definition render :: "feed \<Rightarrow> element list" where
  "render s =
     map (\<lambda>(index, u).
            if int index = int (length (users s)) - 1
            then UserCard_el True (login_uuid u) u
            else UserCard_el False (login_uuid u) u)
         (enumerate 0 (users s))
     @ (if loading s then [P_el ''Loading...''] else [])"

fun is_card :: "element \<Rightarrow> bool" where
  "is_card (UserCard_el r k u) = True"
| "is_card (P_el t) = False"

fun has_ref :: "element \<Rightarrow> bool" where
  "has_ref (UserCard_el r k u) = r"
| "has_ref (P_el t) = False"

fun card_users :: "element list \<Rightarrow> user list" where
  "card_users [] = []"
| "card_users (UserCard_el r k u # es) = u # card_users es"
| "card_users (P_el t # es) = card_users es"

definition cards :: "element list \<Rightarrow> element list" where
  "cards es = filter is_card es"

text \<open>
  At commit React stores in a ref the node of the element that carries it, and null
  when no element does; were several elements to carry it, the last one attached would
  stay.
\<close>

definition attach_ref :: "element list \<Rightarrow> nat option" where
  "attach_ref es =
     (case filter (\<lambda>n. has_ref (es ! n)) [0..<length es] of
        [] \<Rightarrow> None
      | n # ns \<Rightarrow> Some (last (n # ns)))"

definition commit :: "feed \<Rightarrow> feed" where
  "commit s = s\<lparr>lastUserElementRef := attach_ref (render s)\<rparr>"

text \<open>
  A render pass after a state change: the refs are attached, then the observer effect
  runs again (cleanup first) if the \<open>users\<close> array is not the one it last ran with.
\<close>

definition rerender :: "feed \<Rightarrow> feed" where
  "rerender s =
     (let s1 = commit s
      in if users_version s1 \<noteq> effect_deps s1
         then (observer_effect (observer_cleanup s1))\<lparr>effect_deps := users_version s1\<rparr>
         else s1)"

text \<open>
  Mounting: the first render, its commit, then the two effects in the order they are
  declared (the observer effect, then the effect that loads the first batch), then the
  render pass that the loader's \<^verbatim>\<open>setLoading(true)\<close> causes. This is one mount, as
  a production build performs it; \<^verbatim>\<open>main.tsx\<close> renders the feed inside
  \<^verbatim>\<open>StrictMode\<close>, which in a development build mounts a component a second time.
\<close>

definition mount :: feed where
  "mount = rerender (fetchUsers (observer_effect (commit initial)))"

section \<open>Events\<close>

datatype event =
    Intersection "entry list"
  | FetchResolved nat
  | FetchRejected nat
  | JsonResolved nat data
  | JsonRejected nat

text \<open>
  One turn of the event loop: the handler, then the render pass. A TypeError thrown by
  the observer callback is reported and leaves the state as it was.
\<close>

fun step :: "event \<Rightarrow> feed \<Rightarrow> feed" where
  "step (Intersection entries) s =
     (case handleObserver entries s of Inl e \<Rightarrow> s | Inr s' \<Rightarrow> rerender s')"
| "step (FetchResolved i) s = rerender (fetch_resolved i s)"
| "step (FetchRejected i) s = rerender (fetch_rejected i s)"
| "step (JsonResolved i d) s = rerender (json_resolved i d s)"
| "step (JsonRejected i) s = rerender (json_rejected i s)"

fun exec :: "event list \<Rightarrow> feed \<Rightarrow> feed" where
  "exec [] s = s"
| "exec (e # es) s = exec es (step e s)"

text \<open>
  One call of the loader run from start to end with nothing else in between, under each
  of the three ways the network can answer it.
\<close>

datatype outcome = NetworkFails | ParseFails | Parsed data

fun fetchUsers_run :: "outcome \<Rightarrow> feed \<Rightarrow> feed" where
  "fetchUsers_run NetworkFails s = fetch_rejected (length (calls s)) (fetchUsers s)"
| "fetchUsers_run ParseFails s =
     json_rejected (length (calls s)) (fetch_resolved (length (calls s)) (fetchUsers s))"
| "fetchUsers_run (Parsed d) s =
     json_resolved (length (calls s)) d (fetch_resolved (length (calls s)) (fetchUsers s))"

section \<open>Vocabulary of the properties\<close>

text \<open>
  The five steps of a call of the loader that runs to its end, in the order of the
  source: call \<open>i\<close>, finding \<open>prevUsers\<close> in the state when its update is applied,
  and receiving \<open>d\<close>.
\<close>

definition loader_steps :: "nat \<Rightarrow> user list \<Rightarrow> data \<Rightarrow> action list" where
  "loader_steps i prevUsers d =
     [SetLoading i True, Fetch i url, ResponseJson i, SetUsers i (prevUsers @ results d),
      SetLoading i False]"

fun call_of :: "action \<Rightarrow> nat" where
  "call_of (SetLoading i b) = i"
| "call_of (Fetch i u) = i"
| "call_of (ResponseJson i) = i"
| "call_of (SetUsers i us) = i"

text \<open>The actions of call \<open>i\<close>, in the order they happened.\<close>

definition actions_of :: "nat \<Rightarrow> feed \<Rightarrow> action list" where
  "actions_of i s = filter (\<lambda>a. call_of a = i) (trace s)"

text \<open>What a call has done so far, by the state of its promise.\<close>

definition in_phase :: "nat \<Rightarrow> promise \<Rightarrow> action list \<Rightarrow> bool" where
  "in_phase i p as =
     (case p of
        AwaitFetch \<Rightarrow> as = [SetLoading i True, Fetch i url]
      | AwaitJson \<Rightarrow> as = [SetLoading i True, Fetch i url, ResponseJson i]
      | Fulfilled \<Rightarrow> (\<exists>us d. as = loader_steps i us d)
      | Rejected \<Rightarrow> as = [SetLoading i True, Fetch i url] \<or>
                    as = [SetLoading i True, Fetch i url, ResponseJson i])"

definition traced_at :: "nat \<Rightarrow> feed \<Rightarrow> bool" where
  "traced_at i s \<longleftrightarrow>
     (if i < length (calls s) then in_phase i (calls s ! i) (actions_of i s)
      else actions_of i s = [])"

text \<open>A call is in flight while its promise is suspended at one of the two awaits.\<close>

definition in_flight :: "feed \<Rightarrow> bool" where
  "in_flight s \<longleftrightarrow> AwaitFetch \<in> set (calls s) \<or> AwaitJson \<in> set (calls s)"

definition flag_explained :: "feed \<Rightarrow> bool" where
  "flag_explained s \<longleftrightarrow> (loading s \<longrightarrow> in_flight s \<or> Rejected \<in> set (calls s))"

text \<open>The number of calls of the loader that ran to their end.\<close>

definition successful :: "feed \<Rightarrow> nat" where
  "successful s = length (filter (\<lambda>p. p = Fulfilled) (calls s))"

text \<open>
  The nodes the current observer observes, and the node of the last card (none when
  there is no card).
\<close>

definition watched :: "feed \<Rightarrow> nat list" where
  "watched s =
     (case observer s of
        None \<Rightarrow> []
      | Some ob \<Rightarrow> if ob < length (observers s) then observers s ! ob else [])"

definition last_card :: "feed \<Rightarrow> nat list" where
  "last_card s = (if users s = [] then [] else [length (users s) - 1])"

text \<open>
  The observer effect is up to date: it ran with the current \<open>users\<close> array, the
  current observer observes the last card and nothing else, and every earlier observer
  is disconnected.
\<close>

definition attached :: "feed \<Rightarrow> bool" where
  "attached s \<longleftrightarrow>
     effect_deps s = users_version s \<and>
     (\<exists>ob. observer s = Some ob \<and> ob < length (observers s) \<and>
        observers s ! ob = last_card s \<and>
        (\<forall>j < length (observers s). j \<noteq> ob \<longrightarrow> observers s ! j = []))"

text \<open>A user record for the examples.\<close>

definition sample :: user where
  "sample = \<lparr>login_uuid = ''u'', picture_large = ''l'', name_first = ''f'',
     name_last = ''n'', email = ''e''\<rparr>"

section \<open>What each operation leaves alone\<close>

lemma disconnect_frame [simp]:
  "users (disconnect ob s) = users s" "loading (disconnect ob s) = loading s"
  "calls (disconnect ob s) = calls s" "trace (disconnect ob s) = trace s"
  "users_version (disconnect ob s) = users_version s"
  "effect_deps (disconnect ob s) = effect_deps s"
  "observer (disconnect ob s) = observer s"
  "lastUserElementRef (disconnect ob s) = lastUserElementRef s"
  by (simp_all add: disconnect_def)

lemma observe_frame [simp]:
  "users (observe ob n s) = users s" "loading (observe ob n s) = loading s"
  "calls (observe ob n s) = calls s" "trace (observe ob n s) = trace s"
  "users_version (observe ob n s) = users_version s"
  "effect_deps (observe ob n s) = effect_deps s"
  "observer (observe ob n s) = observer s"
  "lastUserElementRef (observe ob n s) = lastUserElementRef s"
  by (simp_all add: observe_def)

lemma observer_cleanup_frame [simp]:
  "users (observer_cleanup s) = users s" "loading (observer_cleanup s) = loading s"
  "calls (observer_cleanup s) = calls s" "trace (observer_cleanup s) = trace s"
  "users_version (observer_cleanup s) = users_version s"
  "effect_deps (observer_cleanup s) = effect_deps s"
  "observer (observer_cleanup s) = observer s"
  "lastUserElementRef (observer_cleanup s) = lastUserElementRef s"
  by (simp_all add: observer_cleanup_def split: option.splits)

lemma observer_effect_frame [simp]:
  "users (observer_effect s) = users s" "loading (observer_effect s) = loading s"
  "calls (observer_effect s) = calls s" "trace (observer_effect s) = trace s"
  "users_version (observer_effect s) = users_version s"
  "effect_deps (observer_effect s) = effect_deps s"
  "lastUserElementRef (observer_effect s) = lastUserElementRef s"
  by (simp_all add: observer_effect_def Let_def split: option.splits)

lemma commit_frame [simp]:
  "users (commit s) = users s" "loading (commit s) = loading s"
  "calls (commit s) = calls s" "trace (commit s) = trace s"
  "users_version (commit s) = users_version s"
  "effect_deps (commit s) = effect_deps s"
  "observer (commit s) = observer s"
  "observers (commit s) = observers s"
  by (simp_all add: commit_def)

lemma rerender_frame [simp]:
  "users (rerender s) = users s" "loading (rerender s) = loading s"
  "calls (rerender s) = calls s" "trace (rerender s) = trace s"
  "users_version (rerender s) = users_version s"
  by (simp_all add: rerender_def Let_def)

lemma fetchUsers_fields [simp]:
  "users (fetchUsers s) = users s" "loading (fetchUsers s) = True"
  "calls (fetchUsers s) = calls s @ [AwaitFetch]"
  "trace (fetchUsers s) =
     trace s @ [SetLoading (length (calls s)) True, Fetch (length (calls s)) url]"
  "users_version (fetchUsers s) = users_version s"
  "observer (fetchUsers s) = observer s" "observers (fetchUsers s) = observers s"
  "effect_deps (fetchUsers s) = effect_deps s"
  "lastUserElementRef (fetchUsers s) = lastUserElementRef s"
  by (simp_all add: fetchUsers_def fetch_def setLoading_def Let_def)

lemma fetch_resolved_fields [simp]:
  "users (fetch_resolved i s) = users s" "loading (fetch_resolved i s) = loading s"
  "calls (fetch_resolved i s) =
     (if i < length (calls s) \<and> calls s ! i = AwaitFetch then (calls s)[i := AwaitJson]
      else calls s)"
  "trace (fetch_resolved i s) =
     (if i < length (calls s) \<and> calls s ! i = AwaitFetch then trace s @ [ResponseJson i]
      else trace s)"
  "observer (fetch_resolved i s) = observer s" "observers (fetch_resolved i s) = observers s"
  "effect_deps (fetch_resolved i s) = effect_deps s"
  "users_version (fetch_resolved i s) = users_version s"
  by (simp_all add: fetch_resolved_def)

lemma fetch_rejected_fields [simp]:
  "users (fetch_rejected i s) = users s" "loading (fetch_rejected i s) = loading s"
  "calls (fetch_rejected i s) =
     (if i < length (calls s) \<and> calls s ! i = AwaitFetch then (calls s)[i := Rejected]
      else calls s)"
  "trace (fetch_rejected i s) = trace s"
  "observer (fetch_rejected i s) = observer s" "observers (fetch_rejected i s) = observers s"
  "effect_deps (fetch_rejected i s) = effect_deps s"
  "users_version (fetch_rejected i s) = users_version s"
  by (simp_all add: fetch_rejected_def)

lemma json_rejected_fields [simp]:
  "users (json_rejected i s) = users s" "loading (json_rejected i s) = loading s"
  "calls (json_rejected i s) =
     (if i < length (calls s) \<and> calls s ! i = AwaitJson then (calls s)[i := Rejected]
      else calls s)"
  "trace (json_rejected i s) = trace s"
  "observer (json_rejected i s) = observer s" "observers (json_rejected i s) = observers s"
  "effect_deps (json_rejected i s) = effect_deps s"
  "users_version (json_rejected i s) = users_version s"
  by (simp_all add: json_rejected_def)

lemma json_resolved_fields [simp]:
  "users (json_resolved i d s) =
     (if i < length (calls s) \<and> calls s ! i = AwaitJson then users s @ results d
      else users s)"
  "loading (json_resolved i d s) =
     (if i < length (calls s) \<and> calls s ! i = AwaitJson then False else loading s)"
  "calls (json_resolved i d s) =
     (if i < length (calls s) \<and> calls s ! i = AwaitJson then (calls s)[i := Fulfilled]
      else calls s)"
  "trace (json_resolved i d s) =
     (if i < length (calls s) \<and> calls s ! i = AwaitJson
      then trace s @ [SetUsers i (users s @ results d), SetLoading i False]
      else trace s)"
  "observer (json_resolved i d s) = observer s"
  "observers (json_resolved i d s) = observers s"
  "effect_deps (json_resolved i d s) = effect_deps s"
  "users_version (json_resolved i d s) =
     (if i < length (calls s) \<and> calls s ! i = AwaitJson then Suc (users_version s)
      else users_version s)"
  by (simp_all add: json_resolved_def setLoading_def setUsers_def)

text \<open>The state cells after one turn of the event loop, by the event.\<close>

lemma step_fields:
  "users (step e s) =
     (case e of JsonResolved i d \<Rightarrow> users (json_resolved i d s) | _ \<Rightarrow> users s)"
  "calls (step e s) =
     (case e of
        Intersection entries \<Rightarrow>
          (case entries of
             [] \<Rightarrow> calls s
           | en # _ \<Rightarrow> if isIntersecting en then calls s @ [AwaitFetch] else calls s)
      | FetchResolved i \<Rightarrow> calls (fetch_resolved i s)
      | FetchRejected i \<Rightarrow> calls (fetch_rejected i s)
      | JsonResolved i d \<Rightarrow> calls (json_resolved i d s)
      | JsonRejected i \<Rightarrow> calls (json_rejected i s))"
  "loading (step e s) =
     (case e of
        Intersection entries \<Rightarrow>
          (case entries of
             [] \<Rightarrow> loading s
           | en # _ \<Rightarrow> if isIntersecting en then True else loading s)
      | JsonResolved i d \<Rightarrow> loading (json_resolved i d s)
      | _ \<Rightarrow> loading s)"
  by (cases e; simp add: handleObserver_def split: list.splits)+

lemma mount_fields:
  "users mount = []" "loading mount" "calls mount = [AwaitFetch]"
  "trace mount = [SetLoading 0 True, Fetch 0 url]"
  by (simp_all add: mount_def initial_def)

section \<open>The view\<close>

lemma card_users_map_enumerate:
  "card_users
     (map (\<lambda>(index, u). if c index then UserCard_el True (k u) u else UserCard_el False (k u) u)
        (enumerate n xs) @ ys) = xs @ card_users ys"
  by (induction xs arbitrary: n) auto

lemma cards_map_enumerate:
  "filter is_card
     (map (\<lambda>(index, u). if c index then UserCard_el True (k u) u else UserCard_el False (k u) u)
        (enumerate n xs)) =
   map (\<lambda>(index, u). if c index then UserCard_el True (k u) u else UserCard_el False (k u) u)
     (enumerate n xs)"
  by (induction xs arbitrary: n) auto

lemma not_cards_map_enumerate:
  "filter (\<lambda>e. \<not> is_card e)
     (map (\<lambda>(index, u). if c index then UserCard_el True (k u) u else UserCard_el False (k u) u)
        (enumerate n xs)) = []"
  by (induction xs arbitrary: n) auto

lemma card_users_render: "card_users (render s) = users s"
  unfolding render_def by (simp add: card_users_map_enumerate)

lemma length_cards_render: "length (cards (render s)) = length (users s)"
  unfolding render_def cards_def by (simp add: cards_map_enumerate)

lemma indicator_render:
  "filter (\<lambda>e. \<not> is_card e) (render s) = (if loading s then [P_el ''Loading...''] else [])"
  unfolding render_def by (simp add: not_cards_map_enumerate)

lemma length_render: "length (render s) = length (users s) + (if loading s then 1 else 0)"
  by (simp add: render_def)

text \<open>Only the card of the last user carries the ref.\<close>

lemma has_ref_render_nth:
  "n < length (render s) \<Longrightarrow> has_ref (render s ! n) \<longleftrightarrow> Suc n = length (users s)"
  by (auto simp: render_def nth_append nth_enumerate_eq split: if_splits)

lemma filter_upt_single: "k < m \<Longrightarrow> filter (\<lambda>n. n = k) [0..<m] = [k]"
  by (induction m) (auto simp: less_Suc_eq)

lemma attach_ref_render:
  "attach_ref (render s) = (if users s = [] then None else Some (length (users s) - 1))"
proof -
  let ?m = "length (render s)"
  have eq: "filter (\<lambda>n. has_ref (render s ! n)) [0..<?m] =
      filter (\<lambda>n. Suc n = length (users s)) [0..<?m]"
    by (rule filter_cong) (auto simp: has_ref_render_nth)
  show ?thesis
  proof (cases "users s = []")
    case True
    then have "filter (\<lambda>n. Suc n = length (users s)) [0..<?m] = []" by simp
    with eq True show ?thesis by (simp add: attach_ref_def)
  next
    case False
    then have k: "length (users s) - 1 < ?m"
      by (cases "users s") (simp_all add: length_render)
    from False have "(\<lambda>n. Suc n = length (users s)) = (\<lambda>n. n = length (users s) - 1)"
      by (auto simp: fun_eq_iff)
    with filter_upt_single [OF k] eq
    have "filter (\<lambda>n. has_ref (render s ! n)) [0..<?m] = [length (users s) - 1]"
      by simp
    with False show ?thesis by (simp add: attach_ref_def)
  qed
qed

lemma lastUserElementRef_commit:
  "lastUserElementRef (commit s) = (if users s = [] then None else Some (length (users s) - 1))"
  by (simp add: commit_def attach_ref_render)

section \<open>Invariants of the event loop\<close>

subsection \<open>The observer stays on the last card\<close>

lemma rerender_same: "effect_deps s = users_version s \<Longrightarrow> rerender s = commit s"
  by (simp add: rerender_def Let_def)

lemma attached_commit: "attached (commit s) = attached s"
  by (simp add: attached_def last_card_def)

lemma attached_cong:
  "users s' = users s \<Longrightarrow> observer s' = observer s \<Longrightarrow> observers s' = observers s \<Longrightarrow>
   effect_deps s' = effect_deps s \<Longrightarrow> users_version s' = users_version s \<Longrightarrow>
   attached s' = attached s"
  by (simp add: attached_def last_card_def)

text \<open>A handler that leaves \<open>users\<close> alone: the render pass only commits.\<close>

lemma attached_rerender_same:
  assumes "attached s" and "users s' = users s" "observer s' = observer s"
    "observers s' = observers s" "effect_deps s' = effect_deps s"
    "users_version s' = users_version s"
  shows "attached (rerender s')"
proof -
  have "attached s' = attached s"
    by (rule attached_cong) (fact assms)+
  with assms(1) have s': "attached s'" by simp
  then have "effect_deps s' = users_version s'" by (simp add: attached_def)
  then have "rerender s' = commit s'" by (rule rerender_same)
  with s' show ?thesis by (simp add: attached_commit)
qed

text \<open>
  A handler that stored a new \<open>users\<close> array: the cleanup and the effect run, the old
  observer is disconnected and a new one observes the card that is last now.
\<close>

lemma attached_rerender_changed:
  assumes "attached s'" and "observers s = observers s'" "observer s = observer s'"
  assumes "effect_deps s \<noteq> users_version s"
  shows "attached (rerender s)"
  using assms
  apply (simp add: rerender_def Let_def)
  apply (auto simp: attached_def last_card_def observer_effect_def observer_cleanup_def
      disconnect_def observe_def Let_def lastUserElementRef_commit nth_append
      nth_list_update split: option.splits)
  done

lemma attached_step: "attached s \<Longrightarrow> attached (step e s)"
proof (cases e)
  case (Intersection entries)
  assume a: "attached s"
  show ?thesis
  proof (cases entries)
    case Nil
    with Intersection a show ?thesis by (simp add: handleObserver_def)
  next
    case (Cons en ens)
    have "attached (rerender (if isIntersecting en then fetchUsers s else s))"
      by (rule attached_rerender_same [OF a]) simp_all
    with Intersection Cons show ?thesis by (simp add: handleObserver_def)
  qed
next
  case (FetchResolved i)
  assume a: "attached s"
  have "attached (rerender (fetch_resolved i s))"
    by (rule attached_rerender_same [OF a]) simp_all
  with FetchResolved show ?thesis by simp
next
  case (FetchRejected i)
  assume a: "attached s"
  have "attached (rerender (fetch_rejected i s))"
    by (rule attached_rerender_same [OF a]) simp_all
  with FetchRejected show ?thesis by simp
next
  case (JsonResolved i d)
  assume a: "attached s"
  have "attached (rerender (json_resolved i d s))"
  proof (cases "i < length (calls s) \<and> calls s ! i = AwaitJson")
    case True
    with a have "effect_deps (json_resolved i d s) \<noteq> users_version (json_resolved i d s)"
      by (simp add: attached_def)
    then show ?thesis
      by (rule attached_rerender_changed [OF a, rotated 2]) simp_all
  next
    case False
    then show ?thesis
      by (intro attached_rerender_same [OF a]) auto
  qed
  with JsonResolved show ?thesis by simp
next
  case (JsonRejected i)
  assume a: "attached s"
  have "attached (rerender (json_rejected i s))"
    by (rule attached_rerender_same [OF a]) simp_all
  with JsonRejected show ?thesis by simp
qed

lemma attached_exec: "attached s \<Longrightarrow> attached (exec evs s)"
  by (induction evs arbitrary: s) (simp_all add: attached_step)

lemma attached_first_effect: "attached (observer_effect (commit initial))"
  by (simp add: attached_def last_card_def observer_effect_def commit_def initial_def
      render_def attach_ref_def Let_def)

lemma attached_mount: "attached mount"
  unfolding mount_def
  by (rule attached_rerender_same [OF attached_first_effect]) simp_all

lemma sample_run:
  "observer (exec [FetchResolved 0, JsonResolved 0 (Data [sample])] mount) = Some 1"
  "observers (exec [FetchResolved 0, JsonResolved 0 (Data [sample])] mount) = [[], [0]]"
  "users (exec [FetchResolved 0, JsonResolved 0 (Data [sample])] mount) = [sample]"
  by code_simp+

subsection \<open>The flag and the calls\<close>

lemma flag_explained_step: "flag_explained s \<Longrightarrow> flag_explained (step e s)"
  by (cases e)
    (auto simp: flag_explained_def in_flight_def step_fields set_update_memI
       simp del: step.simps split: list.splits
       dest!: subsetD [OF set_update_subset_insert])

lemma flag_explained_exec: "flag_explained s \<Longrightarrow> flag_explained (exec evs s)"
  by (induction evs arbitrary: s) (simp_all add: flag_explained_step)

subsection \<open>Counting the calls that ran to their end\<close>

lemma length_filter_update:
  "i < length xs \<Longrightarrow>
   length (filter Q (xs[i := y])) + (if Q (xs ! i) then 1 else 0) =
   length (filter Q xs) + (if Q y then 1 else 0)"
proof (induction xs arbitrary: i)
  case Nil
  then show ?case by simp
next
  case (Cons x xs)
  then show ?case by (cases i) auto
qed

lemma fulfilled_update:
  "i < length xs \<Longrightarrow> xs ! i \<noteq> Fulfilled \<Longrightarrow>
   length (filter (\<lambda>p. p = Fulfilled) (xs[i := y])) =
   length (filter (\<lambda>p. p = Fulfilled) xs) + (if y = Fulfilled then 1 else 0)"
  using length_filter_update [of i xs "\<lambda>p. p = Fulfilled" y] by simp

lemma successful_step:
  "successful (step e s) =
     (case e of
        JsonResolved i d \<Rightarrow>
          if i < length (calls s) \<and> calls s ! i = AwaitJson then Suc (successful s)
          else successful s
      | _ \<Rightarrow> successful s)"
  by (cases e)
    (auto simp: successful_def step_fields fulfilled_update simp del: step.simps
       split: list.splits)

lemma batches_of_ten:
  "\<forall>i d. JsonResolved i d \<in> set evs \<longrightarrow> length (results d) = 10 \<Longrightarrow>
   length (users s) = 10 * successful s \<Longrightarrow>
   length (users (exec evs s)) = 10 * successful (exec evs s)"
proof (induction evs arbitrary: s)
  case Nil
  then show ?case by simp
next
  case (Cons e evs)
  have "length (users (step e s)) = 10 * successful (step e s)"
    using Cons.prems
    by (cases e) (auto simp: successful_step step_fields simp del: step.simps)
  with Cons show ?case by simp
qed

subsection \<open>The sequence only grows\<close>

lemma prefix_users_step: "prefix (users s) (users (step e s))"
  by (cases e) (simp_all add: step_fields del: step.simps)

lemma prefix_users_exec: "prefix (users s) (users (exec evs s))"
proof (induction evs arbitrary: s)
  case Nil
  show ?case by simp
next
  case (Cons e evs)
  have "prefix (users s) (users (step e s))" by (rule prefix_users_step)
  also have "prefix (users (step e s)) (users (exec evs (step e s)))" by (rule Cons.IH)
  finally show ?case by simp
qed

subsection \<open>The actions of one call, among those of the others\<close>

lemma actions_of_fetchUsers:
  "actions_of i (fetchUsers s) =
     actions_of i s @ (if i = length (calls s) then [SetLoading i True, Fetch i url] else [])"
  by (simp add: actions_of_def)

lemma actions_of_fetch_resolved:
  "actions_of i (fetch_resolved j s) =
     actions_of i s @
     (if j < length (calls s) \<and> calls s ! j = AwaitFetch \<and> i = j then [ResponseJson i]
      else [])"
  by (simp add: actions_of_def)

lemma actions_of_json_resolved:
  "actions_of i (json_resolved j d s) =
     actions_of i s @
     (if j < length (calls s) \<and> calls s ! j = AwaitJson \<and> i = j
      then [SetUsers i (users s @ results d), SetLoading i False] else [])"
  by (simp add: actions_of_def)

lemma actions_of_unchanged:
  "actions_of i (fetch_rejected j s) = actions_of i s"
  "actions_of i (json_rejected j s) = actions_of i s"
  "actions_of i (rerender s) = actions_of i s"
  by (simp_all add: actions_of_def)

lemma traced_at_rerender: "traced_at i (rerender s) = traced_at i s"
  by (simp add: traced_at_def actions_of_unchanged)

lemma traced_at_fetchUsers: "traced_at i s \<Longrightarrow> traced_at i (fetchUsers s)"
  by (auto simp: traced_at_def actions_of_fetchUsers nth_append in_phase_def
      split: if_splits promise.splits)

lemma traced_at_fetch_resolved: "traced_at i s \<Longrightarrow> traced_at i (fetch_resolved j s)"
  by (auto simp: traced_at_def actions_of_fetch_resolved nth_list_update in_phase_def
      split: if_splits promise.splits)

lemma traced_at_fetch_rejected: "traced_at i s \<Longrightarrow> traced_at i (fetch_rejected j s)"
  by (auto simp: traced_at_def actions_of_unchanged nth_list_update in_phase_def
      split: if_splits promise.splits)

lemma traced_at_json_rejected: "traced_at i s \<Longrightarrow> traced_at i (json_rejected j s)"
  by (auto simp: traced_at_def actions_of_unchanged nth_list_update in_phase_def
      split: if_splits promise.splits)

lemma traced_at_json_resolved: "traced_at i s \<Longrightarrow> traced_at i (json_resolved j d s)"
  by (auto simp: traced_at_def actions_of_json_resolved nth_list_update in_phase_def
      loader_steps_def split: if_splits promise.splits)

lemma traced_at_step: "traced_at i s \<Longrightarrow> traced_at i (step e s)"
proof (cases e)
  case (Intersection entries)
  assume "traced_at i s"
  with Intersection show ?thesis
    by (cases entries)
      (simp_all add: handleObserver_def traced_at_rerender traced_at_fetchUsers)
qed (simp_all add: traced_at_rerender traced_at_fetch_resolved traced_at_fetch_rejected
       traced_at_json_rejected traced_at_json_resolved)

lemma traced_at_exec: "traced_at i s \<Longrightarrow> traced_at i (exec evs s)"
  by (induction evs arbitrary: s) (simp_all add: traced_at_step)

lemma traced_at_mount: "traced_at i mount"
  by (auto simp: traced_at_def mount_fields actions_of_def in_phase_def)

lemma in_phase_prefix: "in_phase i p as \<Longrightarrow> \<exists>us d. prefix as (loader_steps i us d)"
  by (cases p) (auto simp: in_phase_def loader_steps_def)

section \<open>The claims\<close>

text \<open>
  Claim C1, as amended. A call of the loader whose network call and whose parse succeed
  proceeds in this order: it sets the loading flag, issues the request for ten records
  to the fixed address, parses the response, appends the records received to the
  sequence and clears the flag. A call whose parse fails stops after the third step and
  one whose network call fails after the second. This holds for a call that runs alone
  from any state, and for every call \<open>i\<close> among the others in every state the mounted
  feed can reach.
\<close>

theorem fetchUsers_steps_in_order:
  "trace (fetchUsers_run (Parsed d) s) =
     trace s @ loader_steps (length (calls s)) (users s) d \<and>
   users (fetchUsers_run (Parsed d) s) = users s @ results d \<and>
   \<not> loading (fetchUsers_run (Parsed d) s) \<and>
   trace (fetchUsers_run ParseFails s) =
     trace s @ take 3 (loader_steps (length (calls s)) (users s) d) \<and>
   trace (fetchUsers_run NetworkFails s) =
     trace s @ take 2 (loader_steps (length (calls s)) (users s) d) \<and>
   (\<exists>us d'. prefix (actions_of i (exec evs mount)) (loader_steps i us d')) \<and>
   (i < length (calls (exec evs mount)) \<and> calls (exec evs mount) ! i = Fulfilled \<longrightarrow>
      (\<exists>us d'. actions_of i (exec evs mount) = loader_steps i us d'))"
proof -
  have alone: "trace (fetchUsers_run (Parsed d) s) =
      trace s @ loader_steps (length (calls s)) (users s) d"
    "users (fetchUsers_run (Parsed d) s) = users s @ results d"
    "\<not> loading (fetchUsers_run (Parsed d) s)"
    "trace (fetchUsers_run ParseFails s) =
      trace s @ take 3 (loader_steps (length (calls s)) (users s) d)"
    "trace (fetchUsers_run NetworkFails s) =
      trace s @ take 2 (loader_steps (length (calls s)) (users s) d)"
    by (simp_all add: loader_steps_def nth_append)
  have t: "traced_at i (exec evs mount)"
    by (rule traced_at_exec [OF traced_at_mount])
  have among: "\<exists>us d'. prefix (actions_of i (exec evs mount)) (loader_steps i us d')"
  proof (cases "i < length (calls (exec evs mount))")
    case True
    with t have "in_phase i (calls (exec evs mount) ! i) (actions_of i (exec evs mount))"
      by (simp add: traced_at_def)
    then show ?thesis by (rule in_phase_prefix)
  next
    case False
    with t show ?thesis by (simp add: traced_at_def)
  qed
  have ended: "i < length (calls (exec evs mount)) \<and> calls (exec evs mount) ! i = Fulfilled \<longrightarrow>
      (\<exists>us d'. actions_of i (exec evs mount) = loader_steps i us d')"
    using t by (auto simp: traced_at_def in_phase_def)
  from alone among ended show ?thesis by blast
qed

theorem fetchUsers_steps_in_order_witness:
  "trace (fetchUsers_run (Parsed (Data [sample])) initial) =
     [SetLoading 0 True, Fetch 0 url, ResponseJson 0, SetUsers 0 [sample], SetLoading 0 False] \<and>
   calls (exec [FetchResolved 0, JsonResolved 0 (Data [sample])] mount) ! 0 = Fulfilled \<and>
   (\<exists>us d'. actions_of 0 (exec [FetchResolved 0, JsonResolved 0 (Data [sample])] mount) =
      loader_steps 0 us d')"
  using fetchUsers_steps_in_order
    [where d = "Data [sample]" and s = initial and i = 0
       and evs = "[FetchResolved 0, JsonResolved 0 (Data [sample])]"]
  by (simp add: step_fields mount_fields loader_steps_def initial_def del: step.simps)

text \<open>
  Claim C1 as stated fails for a call whose network call is rejected: it sets the flag
  and issues the request, and nothing more; the flag is never set back.
\<close>

theorem fetchUsers_stops_when_fetch_rejected:
  "trace (fetchUsers_run NetworkFails initial) = [SetLoading 0 True, Fetch 0 url] \<and>
   loading (fetchUsers_run NetworkFails initial) \<and>
   SetLoading 0 False \<notin> set (trace (fetchUsers_run NetworkFails initial))"
  by (simp add: initial_def)

text \<open>
  Claim C2. The mounted feed starts from the empty sequence. After any run of events in
  which every response that is parsed holds ten records, the length of the sequence is
  ten times the number of calls of the loader that ran to their end, whether these
  calls overlapped or not.
\<close>

theorem users_length_ten_per_call:
  "\<forall>i d. JsonResolved i d \<in> set evs \<longrightarrow> length (results d) = 10 \<Longrightarrow>
   length (users (exec evs mount)) = successful (exec evs mount) * 10"
  using batches_of_ten [of evs mount] by (simp add: successful_def mount_fields)

theorem users_length_ten_per_call_witness:
  "length (results (Data (replicate 10 sample))) = 10 \<and>
   successful (exec [FetchResolved 0, JsonResolved 0 (Data (replicate 10 sample))] mount) = 1 \<and>
   length (users (exec [FetchResolved 0, JsonResolved 0 (Data (replicate 10 sample))] mount)) = 10"
  using users_length_ten_per_call
    [of "[FetchResolved 0, JsonResolved 0 (Data (replicate 10 sample))]"]
  by (simp add: step_fields mount_fields successful_def del: step.simps)

text \<open>
  Claim C3. Every event, and so every run of events, leaves the records fetched so far
  where they are and adds only at the end: the old sequence is a prefix of the new one.
  A parsed response is appended as it is, with no record dropped as a duplicate, and
  the cards are rendered in the order of the sequence.
\<close>

theorem users_append_only:
  "prefix (users s) (users (step e s)) \<and>
   prefix (users s) (users (exec evs s)) \<and>
   users (step (JsonResolved i d) s) =
     (if i < length (calls s) \<and> calls s ! i = AwaitJson then users s @ results d
      else users s) \<and>
   card_users (render s) = users s"
  by (simp add: prefix_users_step prefix_users_exec card_users_render)

text \<open>
  Claim C4, as amended. A call of the loader whose network call or whose parse fails
  ends with its promise rejected, which no handler catches, and changes neither the
  sequence nor, after setting it, the loading flag: in every run its only actions are
  the first two or three steps, and the rejection leaves the flag and the sequence as
  they were. So the flag is still true afterwards when the call ran alone; in the event
  loop a flag that is set is cleared only by a call that runs to its end, never by a
  failure.
\<close>

theorem failure_is_unhandled:
  "users (fetchUsers_run NetworkFails s) = users s \<and>
   loading (fetchUsers_run NetworkFails s) \<and>
   calls (fetchUsers_run NetworkFails s) = calls s @ [Rejected] \<and>
   users (fetchUsers_run ParseFails s) = users s \<and>
   loading (fetchUsers_run ParseFails s) \<and>
   calls (fetchUsers_run ParseFails s) = calls s @ [Rejected] \<and>
   users (step (FetchRejected i) s) = users s \<and>
   loading (step (FetchRejected i) s) = loading s \<and>
   users (step (JsonRejected i) s) = users s \<and>
   loading (step (JsonRejected i) s) = loading s \<and>
   (i < length (calls s) \<and> calls s ! i = AwaitFetch \<longrightarrow>
      calls (step (FetchRejected i) s) ! i = Rejected) \<and>
   (i < length (calls s) \<and> calls s ! i = AwaitJson \<longrightarrow>
      calls (step (JsonRejected i) s) ! i = Rejected) \<and>
   (j < length (calls (exec evs mount)) \<and> calls (exec evs mount) ! j = Rejected \<longrightarrow>
      actions_of j (exec evs mount) = [SetLoading j True, Fetch j url] \<or>
      actions_of j (exec evs mount) = [SetLoading j True, Fetch j url, ResponseJson j]) \<and>
   (loading s \<and> \<not> loading (step e s) \<longrightarrow>
      (\<exists>k d. e = JsonResolved k d \<and> k < length (calls s) \<and> calls s ! k = AwaitJson))"
proof -
  have alone:
    "users (fetchUsers_run NetworkFails s) = users s"
    "loading (fetchUsers_run NetworkFails s)"
    "calls (fetchUsers_run NetworkFails s) = calls s @ [Rejected]"
    "users (fetchUsers_run ParseFails s) = users s"
    "loading (fetchUsers_run ParseFails s)"
    "calls (fetchUsers_run ParseFails s) = calls s @ [Rejected]"
    by (simp_all add: nth_append)
  have rejection:
    "users (step (FetchRejected i) s) = users s"
    "loading (step (FetchRejected i) s) = loading s"
    "users (step (JsonRejected i) s) = users s"
    "loading (step (JsonRejected i) s) = loading s"
    "i < length (calls s) \<and> calls s ! i = AwaitFetch \<longrightarrow>
       calls (step (FetchRejected i) s) ! i = Rejected"
    "i < length (calls s) \<and> calls s ! i = AwaitJson \<longrightarrow>
       calls (step (JsonRejected i) s) ! i = Rejected"
    by simp_all
  have t: "traced_at j (exec evs mount)"
    by (rule traced_at_exec [OF traced_at_mount])
  then have never: "j < length (calls (exec evs mount)) \<and> calls (exec evs mount) ! j = Rejected \<longrightarrow>
      actions_of j (exec evs mount) = [SetLoading j True, Fetch j url] \<or>
      actions_of j (exec evs mount) = [SetLoading j True, Fetch j url, ResponseJson j]"
    by (auto simp: traced_at_def in_phase_def)
  have cleared: "loading s \<and> \<not> loading (step e s) \<longrightarrow>
      (\<exists>k d. e = JsonResolved k d \<and> k < length (calls s) \<and> calls s ! k = AwaitJson)"
    by (cases e) (auto simp: step_fields simp del: step.simps split: list.splits if_splits)
  from alone rejection never cleared show ?thesis by blast
qed

theorem failure_is_unhandled_witness:
  "calls (step (FetchRejected 0) mount) ! 0 = Rejected \<and>
   loading (step (FetchRejected 0) mount) \<and>
   calls (step (JsonRejected 0) (step (FetchResolved 0) mount)) ! 0 = Rejected \<and>
   actions_of 0 (exec [FetchRejected 0] mount) = [SetLoading 0 True, Fetch 0 url] \<and>
   loading (step (FetchResolved 0) mount) \<and>
   \<not> loading (step (JsonResolved 0 (Data [sample])) (step (FetchResolved 0) mount)) \<and>
   calls (step (FetchResolved 0) mount) ! 0 = AwaitJson"
  using failure_is_unhandled [where s = mount and i = 0 and j = 0 and evs = "[FetchRejected 0]"
      and e = "FetchRejected 0"]
    failure_is_unhandled [where s = "step (FetchResolved 0) mount" and i = 0 and j = 0 and evs = "[]"
      and e = "JsonResolved 0 (Data [sample])"]
  by (simp add: mount_fields actions_of_def)

text \<open>
  Claim C4 as stated fails when calls overlap. The first batch arrives, the last card
  enters the viewport, leaves it and enters it again, the first of the two calls this
  starts runs to its end and clears the flag, and then the network call of the second
  is rejected: the flag is false after the failure.
\<close>

theorem loading_cleared_by_overlapping_call:
  "calls (exec [FetchResolved 0, JsonResolved 0 (Data [sample]),
       Intersection [\<lparr>isIntersecting = True, target = 0\<rparr>],
       Intersection [\<lparr>isIntersecting = False, target = 0\<rparr>],
       Intersection [\<lparr>isIntersecting = True, target = 0\<rparr>],
       FetchResolved 1, JsonResolved 1 (Data [sample])] mount) ! 2 = AwaitFetch \<and>
   calls (exec [FetchResolved 0, JsonResolved 0 (Data [sample]),
       Intersection [\<lparr>isIntersecting = True, target = 0\<rparr>],
       Intersection [\<lparr>isIntersecting = False, target = 0\<rparr>],
       Intersection [\<lparr>isIntersecting = True, target = 0\<rparr>],
       FetchResolved 1, JsonResolved 1 (Data [sample]), FetchRejected 2] mount) =
     [Fulfilled, Fulfilled, Rejected] \<and>
   \<not> loading (exec [FetchResolved 0, JsonResolved 0 (Data [sample]),
       Intersection [\<lparr>isIntersecting = True, target = 0\<rparr>],
       Intersection [\<lparr>isIntersecting = False, target = 0\<rparr>],
       Intersection [\<lparr>isIntersecting = True, target = 0\<rparr>],
       FetchResolved 1, JsonResolved 1 (Data [sample]), FetchRejected 2] mount)"
  by (simp add: step_fields mount_fields del: step.simps)

text \<open>
  Claim C5, as amended. In every state the mounted feed can reach in which no call of
  the loader has failed, the loading flag is true only while a call is in flight.
\<close>

theorem loading_only_in_flight_unless_failed:
  "loading (exec evs mount) \<Longrightarrow> Rejected \<notin> set (calls (exec evs mount)) \<Longrightarrow>
   in_flight (exec evs mount)"
  using flag_explained_exec [of mount evs]
  by (auto simp: flag_explained_def in_flight_def mount_fields)

theorem loading_only_in_flight_unless_failed_witness:
  "loading (exec [] mount) \<and> Rejected \<notin> set (calls (exec [] mount)) \<and>
   in_flight (exec [] mount)"
  using loading_only_in_flight_unless_failed [of "[]"] by (simp add: mount_fields)

text \<open>
  Claim C5 as stated fails: when the first network call is rejected, the flag is true
  and no call is in flight.
\<close>

theorem loading_stuck_after_failure:
  "loading (exec [FetchRejected 0] mount) \<and> \<not> in_flight (exec [FetchRejected 0] mount)"
  by (simp add: in_flight_def step_fields mount_fields del: step.simps)

text \<open>
  Claim C6. One delivery of entries to the callback of the observer calls the loader
  once when the first entry is intersecting and not at all otherwise; on an empty array
  the callback throws before it could call it.
\<close>

theorem handleObserver_at_most_once:
  "handleObserver (e # es) s = Inr (if isIntersecting e then fetchUsers s else s) \<and>
   handleObserver [] s = Inl TypeError \<and>
   calls (step (Intersection (e # es)) s) =
     calls s @ (if isIntersecting e then [AwaitFetch] else []) \<and>
   calls (step (Intersection []) s) = calls s \<and>
   length (calls (step (Intersection entries) s)) \<le> Suc (length (calls s))"
  by (simp add: step_fields handleObserver_def del: step.simps split: list.splits)

text \<open>
  Claim C7. In every state the element tree holds one card for each record of the
  sequence, in the order of the sequence, and besides the cards the loading indicator
  when the flag is set and nothing when it is not.
\<close>

theorem render_cards_and_indicator:
  "length (cards (render s)) = length (users s) \<and>
   card_users (render s) = users s \<and>
   filter (\<lambda>e. \<not> is_card e) (render s) = (if loading s then [P_el ''Loading...''] else [])"
  by (simp add: length_cards_render card_users_render indicator_render)

text \<open>
  Claim C8. In every state the mounted feed can reach, the current observer observes
  the node of the last card and nothing else (nothing at all while there is no card),
  and every observer created before it is disconnected.
\<close>

theorem observer_on_last_card:
  "watched (exec evs mount) = last_card (exec evs mount) \<and>
   (\<forall>ob < length (observers (exec evs mount)).
      Some ob \<noteq> observer (exec evs mount) \<longrightarrow> observers (exec evs mount) ! ob = [])"
  using attached_exec [OF attached_mount, of evs]
  by (auto simp: attached_def watched_def)

theorem observer_on_last_card_witness:
  "watched (exec [FetchResolved 0, JsonResolved 0 (Data [sample])] mount) = [0] \<and>
   last_card (exec [FetchResolved 0, JsonResolved 0 (Data [sample])] mount) = [0] \<and>
   observer (exec [FetchResolved 0, JsonResolved 0 (Data [sample])] mount) = Some 1 \<and>
   observers (exec [FetchResolved 0, JsonResolved 0 (Data [sample])] mount) ! 0 = []"
  using observer_on_last_card [of "[FetchResolved 0, JsonResolved 0 (Data [sample])]"]
  by (simp add: watched_def last_card_def sample_run del: exec.simps)

text \<open>
  Claim C9. The loader does not read the loading flag: called with the flag set it does
  what it does with the flag clear, in its synchronous part, in a whole run under any
  answer of the network, and when the callback of the observer calls it. It always
  issues a new request, and a call that runs to its end always appends what it
  received.
\<close>

theorem fetchUsers_ignores_loading:
  "fetchUsers (s\<lparr>loading := b\<rparr>) = fetchUsers s \<and>
   fetchUsers_run out (s\<lparr>loading := b\<rparr>) = fetchUsers_run out s \<and>
   handleObserver (e\<lparr>isIntersecting := True\<rparr> # es) (s\<lparr>loading := b\<rparr>) = Inr (fetchUsers s) \<and>
   calls (fetchUsers s) = calls s @ [AwaitFetch] \<and>
   trace (fetchUsers s) =
     trace s @ [SetLoading (length (calls s)) True, Fetch (length (calls s)) url] \<and>
   users (fetchUsers_run (Parsed d) s) = users s @ results d"
proof -
  have sync: "fetchUsers (s\<lparr>loading := b\<rparr>) = fetchUsers s"
    by (simp add: fetchUsers_def fetch_def setLoading_def Let_def)
  have run: "fetchUsers_run out (s\<lparr>loading := b\<rparr>) = fetchUsers_run out s"
    by (cases out) (simp_all add: sync)
  have callback:
    "handleObserver (e\<lparr>isIntersecting := True\<rparr> # es) (s\<lparr>loading := b\<rparr>) = Inr (fetchUsers s)"
    by (simp add: handleObserver_def sync)
  have appended: "users (fetchUsers_run (Parsed d) s) = users s @ results d"
    by (simp add: nth_append)
  from sync run callback appended show ?thesis by simp
qed

text \<open>
  Claim C10. Mounting the feed calls the loader once, before any event: one request is
  issued, nothing is observed yet, and when that request is answered the records
  received are the sequence.
\<close>

theorem mount_loads_first_batch:
  "calls mount = [AwaitFetch] \<and>
   trace mount = [SetLoading 0 True, Fetch 0 url] \<and>
   users mount = [] \<and> loading mount \<and> watched mount = [] \<and>
   users (exec [FetchResolved 0, JsonResolved 0 d] mount) = results d"
proof -
  have "attached mount" by (rule attached_mount)
  then have "watched mount = last_card mount" by (auto simp: attached_def watched_def)
  then have "watched mount = []" by (simp add: last_card_def mount_fields)
  then show ?thesis by (simp add: mount_fields step_fields del: step.simps)
qed

end
